theory Spec2Isabelle
  imports Main "HOL-Library.Sublist"
begin

section \<open>Text\<close>

text \<open>
  A Python \<^verbatim>\<open>str\<close> is a sequence of Unicode code points. It is modelled as a list of
  natural numbers, one per code point, so that \<^verbatim>\<open>len\<close>, slicing, \<^verbatim>\<open>str.strip\<close> and the
  regular expressions of \<^verbatim>\<open>main.py\<close> count what Python counts. Literals of the source
  are written with \<open>lit\<close>, which maps each character of an ASCII literal to its code point.
\<close>

type_synonym pystr = "nat list"

definition lit :: "string \<Rightarrow> pystr" where
  "lit s = map of_char s"

definition newline :: nat where
  "newline = 10"

definition slash :: nat where
  "slash = 47"

definition backtick :: nat where
  "backtick = 96"

section \<open>Source sanitizer (the first two statements of \<^verbatim>\<open>compile_contract\<close>)\<close>

text \<open>
  \<^verbatim>\<open>re.sub(r'// SPDX-License-Identifier: MIT', '', code)\<close>: the pattern holds no
  metacharacter, so it matches itself. \<^verbatim>\<open>re.sub\<close> scans from the left, deletes each
  occurrence and resumes after it; a position where the pattern does not match is copied.
  An empty pattern matches everywhere and deleting the empty matches changes nothing.
\<close>

definition spdx_pattern :: pystr where
  "spdx_pattern = lit ''// SPDX-License-Identifier: MIT''"

function re_sub_literal :: "pystr \<Rightarrow> pystr \<Rightarrow> pystr" where
  "re_sub_literal pat s =
     (if pat = [] then s
      else if prefix pat s then re_sub_literal pat (drop (length pat) s)
      else (case s of [] \<Rightarrow> [] | c # cs \<Rightarrow> c # re_sub_literal pat cs))"
  by pat_completeness auto
termination
  by (relation "measure (\<lambda>(pat, s). length s)") (auto simp: prefix_def)

text \<open>
  \<^verbatim>\<open>re.sub(r'//.*', '', code)\<close>: without \<^verbatim>\<open>re.DOTALL\<close> the dot matches every code
  point but the newline, and the star is greedy, so a match runs from two slashes to the
  next newline (left in place) or to the end of the text. The scan resumes there.
\<close>

function re_sub_line_comment :: "pystr \<Rightarrow> pystr" where
  "re_sub_line_comment [] = []"
| "re_sub_line_comment [a] = [a]"
| "re_sub_line_comment (a # b # cs) =
     (if a = slash \<and> b = slash
      then re_sub_line_comment (dropWhile (\<lambda>c. c \<noteq> newline) cs)
      else a # re_sub_line_comment (b # cs))"
  by pat_completeness auto
termination
  by (relation "measure length") (auto intro: le_imp_less_Suc le_SucI length_dropWhile_le)

definition sanitize :: "pystr \<Rightarrow> pystr" where
  "sanitize code = re_sub_line_comment (re_sub_literal spdx_pattern code)"

section \<open>Exceptions\<close>

text \<open>
  Every \<^verbatim>\<open>raise\<close> of the program and of the operations it calls is a value. A
  \<open>py_error\<close> is an exception that a statement of a handler raises; \<open>exn_str\<close> is Python's
  \<^verbatim>\<open>str(e)\<close> (for a \<^verbatim>\<open>KeyError\<close> the \<^verbatim>\<open>repr\<close> of the key, here always one of the
  plain ASCII keys of the source, in single quotes). \<open>CollaboratorError\<close> stands for any
  exception that an external call raises: it carries the text \<^verbatim>\<open>str(e)\<close>. A request
  ends in a \<open>failure\<close>: an \<^verbatim>\<open>HTTPException\<close> with status code and detail, an
  exception that no handler caught, or the \<^verbatim>\<open>UnicodeEncodeError\<close> of a \<^verbatim>\<open>print\<close>
  (no \<^verbatim>\<open>print\<close> of the program stands in a handler), which carries the text that
  could not be encoded.
\<close>

datatype py_error =
    ValueError pystr
  | KeyError pystr
  | IndexError pystr
  | TypeError pystr
  | AttributeError pystr
  | CollaboratorError pystr

fun exn_str :: "py_error \<Rightarrow> pystr" where
  "exn_str (ValueError m) = m"
| "exn_str (KeyError k) = [39] @ k @ [39]"
| "exn_str (IndexError m) = m"
| "exn_str (TypeError m) = m"
| "exn_str (AttributeError m) = m"
| "exn_str (CollaboratorError m) = m"

datatype failure =
    HTTPException nat pystr
  | Uncaught py_error
  | UncaughtEncodeError pystr

definition bind_result :: "'e + 'a \<Rightarrow> ('a \<Rightarrow> 'e + 'b) \<Rightarrow> 'e + 'b" where
  "bind_result r f = (case r of Inl e \<Rightarrow> Inl e | Inr x \<Rightarrow> f x)"




text \<open>\<^verbatim>\<open>xs[i]\<close> on a list: a negative index counts from the end.\<close>

definition list_index :: "'a list \<Rightarrow> int \<Rightarrow> py_error + 'a" where
  "list_index xs i =
     (if 0 \<le> i \<and> i < int (length xs) then Inr (xs ! nat i)
      else if i < 0 \<and> - i \<le> int (length xs) then Inr (xs ! nat (int (length xs) + i))
      else Inl (IndexError (lit ''list index out of range'')))"

section \<open>Response parser (\<^verbatim>\<open>parse_llm_output\<close>)\<close>

text \<open>
  \<^verbatim>\<open>str.strip()\<close> removes leading and trailing whitespace: the code points for which
  \<^verbatim>\<open>str.isspace\<close> holds (tab to carriage return, the four separators 28 to 31, space,
  NEL, no-break space and the Unicode space separators).
\<close>

definition py_isspace :: "nat \<Rightarrow> bool" where
  "py_isspace c \<longleftrightarrow>
     (9 \<le> c \<and> c \<le> 13) \<or> (28 \<le> c \<and> c \<le> 32) \<or> c = 133 \<or> c = 160 \<or> c = 5760 \<or>
     (8192 \<le> c \<and> c \<le> 8202) \<or> c = 8232 \<or> c = 8233 \<or> c = 8239 \<or> c = 8287 \<or> c = 12288"

definition strip :: "pystr \<Rightarrow> pystr" where
  "strip s = rev (dropWhile py_isspace (rev (dropWhile py_isspace s)))"

definition fence :: pystr where
  "fence = [backtick, backtick, backtick]"

definition solidity_open :: pystr where
  "solidity_open = fence @ lit ''solidity''"

text \<open>\<^verbatim>\<open>s.find(sub)\<close>: the index of the leftmost occurrence, if there is one.\<close>

fun find_sub :: "pystr \<Rightarrow> pystr \<Rightarrow> nat option" where
  "find_sub sub [] = (if sub = [] then Some 0 else None)"
| "find_sub sub (c # cs) =
     (if prefix sub (c # cs) then Some 0 else map_option Suc (find_sub sub cs))"

lemma find_sub_bound:
  "find_sub sub s = Some i \<Longrightarrow> i + length sub \<le> length s"
  by (induction s arbitrary: i) (auto dest: prefix_length_le split: if_splits)

text \<open>
  \<^verbatim>\<open>s.split(sep)\<close>: the text is cut at each occurrence of the separator, found from the
  left, the scan resuming after the occurrence. Python raises \<^verbatim>\<open>ValueError\<close> for an
  empty separator before it scans (\<open>str_split\<close>), so \<open>split_scan\<close> never meets one; its
  test for it is there for the recursion to be well founded.
\<close>

function split_scan :: "pystr \<Rightarrow> pystr \<Rightarrow> pystr list" where
  "split_scan sep s =
     (case find_sub sep s of
        None \<Rightarrow> [s]
      | Some i \<Rightarrow>
          if sep = [] then [s]
          else take i s # split_scan sep (drop (i + length sep) s))"
  by pat_completeness auto
termination split_scan
proof (relation "measure (\<lambda>(sep, s). length s)")
  show "wf (measure (\<lambda>(sep, s). length s))" by simp
next
  fix sep s :: pystr and i
  assume "find_sub sep s = Some i" and "sep \<noteq> []"
  then have "i + length sep \<le> length s"
    by (auto dest: find_sub_bound)
  with \<open>sep \<noteq> []\<close>
  show "((sep, drop (i + length sep) s), (sep, s)) \<in> measure (\<lambda>(sep, s). length s)"
    by (cases sep) auto
qed

definition str_split :: "pystr \<Rightarrow> pystr \<Rightarrow> py_error + pystr list" where
  "str_split sep s =
     (if sep = [] then Inl (ValueError (lit ''empty separator''))
      else Inr (split_scan sep s))"

text \<open>
  \<^verbatim>\<open>re.search(r'```solidity(.*?)```', output, re.DOTALL)\<close>. With \<^verbatim>\<open>re.DOTALL\<close> the dot
  matches every code point, and the group is lazy: at a given start the pattern matches
  when the text there begins with the opening tag and a bare fence follows, and group 1
  is the text up to the first such fence (\<open>match_here\<close>). \<^verbatim>\<open>re.search\<close> tries the
  start positions from the left and returns the first match, \<^verbatim>\<open>None\<close> if there is
  none. The model returns group 1 of the match.
\<close>

definition match_here :: "pystr \<Rightarrow> pystr option" where
  "match_here s =
     (if prefix solidity_open s
      then (let rest = drop (length solidity_open) s
            in map_option (\<lambda>i. take i rest) (find_sub fence rest))
      else None)"

fun re_search_solidity :: "pystr \<Rightarrow> pystr option" where
  "re_search_solidity [] = match_here []"
| "re_search_solidity (c # cs) =
     (case match_here (c # cs) of
        Some g \<Rightarrow> Some g
      | None \<Rightarrow> re_search_solidity cs)"

definition parse_llm_output :: "pystr \<Rightarrow> py_error + (pystr \<times> pystr \<times> pystr)" where
  "parse_llm_output output =
     (let code_match = re_search_solidity output;
          code = (case code_match of Some g \<Rightarrow> strip g | None \<Rightarrow> [])
      in bind_result (str_split fence output) (\<lambda>parts.
         bind_result (list_index parts 0) (\<lambda>first_part.
         bind_result (list_index parts (- 1)) (\<lambda>last_part.
         Inr (code, strip first_part, strip last_part)))))"

section \<open>Generation pipeline (\<^verbatim>\<open>generate_smart_contract\<close>, \<^verbatim>\<open>generate_contract\<close>)\<close>









record generation_result =
  code :: pystr
  first_explanation :: pystr
  last_explanation :: pystr


section \<open>Compilation pipeline (\<^verbatim>\<open>compile_contract\<close>)\<close>

text \<open>
  The compiler's output is the JSON value that \<^verbatim>\<open>compile_standard\<close> returns. An object
  holds its items in the order of the \<^verbatim>\<open>dict\<close> (keys are distinct there). \<open>getitem\<close>
  is \<^verbatim>\<open>v[k]\<close> for a text key and \<open>keys\<close> is \<^verbatim>\<open>list(v.keys())\<close>; on a value that is
  not an object they raise as CPython 3.11 does.
\<close>

datatype json =
    JNull
  | JBool bool
  | JInt int
  | JFloat pystr
  | JStr pystr
  | JArr "json list"
  | JObj "(pystr \<times> json) list"

definition quoted :: "pystr \<Rightarrow> pystr" where
  "quoted s = [39] @ s @ [39]"

fun type_name :: "json \<Rightarrow> pystr" where
  "type_name JNull = lit ''NoneType''"
| "type_name (JBool b) = lit ''bool''"
| "type_name (JInt i) = lit ''int''"
| "type_name (JFloat f) = lit ''float''"
| "type_name (JStr s) = lit ''str''"
| "type_name (JArr xs) = lit ''list''"
| "type_name (JObj kvs) = lit ''dict''"

fun getitem :: "json \<Rightarrow> pystr \<Rightarrow> py_error + json" where
  "getitem (JObj kvs) k = (case map_of kvs k of Some v \<Rightarrow> Inr v | None \<Rightarrow> Inl (KeyError k))"
| "getitem (JStr s) k =
     Inl (TypeError (lit ''string indices must be integers, not '' @ quoted (lit ''str'')))"
| "getitem (JArr xs) k =
     Inl (TypeError (lit ''list indices must be integers or slices, not str''))"
| "getitem v k =
     Inl (TypeError (quoted (type_name v) @ lit '' object is not subscriptable''))"

fun keys :: "json \<Rightarrow> py_error + pystr list" where
  "keys (JObj kvs) = Inr (map fst kvs)"
| "keys v =
     Inl (AttributeError
       (quoted (type_name v) @ lit '' object has no attribute '' @ quoted (lit ''keys'')))"

record compile_result =
  abi :: json
  bytecode :: json

text \<open>The statements of the \<^verbatim>\<open>try\<close> block after the call of the compiler.\<close>

definition extract_first_contract :: "json \<Rightarrow> py_error + compile_result" where
  "extract_first_contract compiled_sol =
     bind_result (getitem compiled_sol (lit ''contracts'')) (\<lambda>contracts.
     bind_result (getitem contracts (lit ''Contract.sol'')) (\<lambda>contract_data.
     bind_result (keys contract_data) (\<lambda>names.
     bind_result (list_index names 0) (\<lambda>contract_name.
     bind_result (getitem contract_data contract_name) (\<lambda>contract_info.
     bind_result (getitem contract_info (lit ''abi'')) (\<lambda>abi_value.
     bind_result (getitem contract_info (lit ''evm'')) (\<lambda>evm.
     bind_result (getitem evm (lit ''bytecode'')) (\<lambda>bytecode_value.
     bind_result (getitem bytecode_value (lit ''object'')) (\<lambda>object_value.
     Inr \<lparr>abi = abi_value, bytecode = object_value\<rparr>)))))))))"

text \<open>
  The names of the contracts that an output of the compiler lists for the file
  \<^verbatim>\<open>Contract.sol\<close>: none when the output has no entry for the file. A source that
  declares no contract is one for which the compiler returns such an output (when it
  returns at all).
\<close>

definition contract_names :: "json \<Rightarrow> pystr list" where
  "contract_names compiled_sol =
     (case getitem compiled_sol (lit ''contracts'') of
        Inl e \<Rightarrow> []
      | Inr contracts \<Rightarrow>
          (case getitem contracts (lit ''Contract.sol'') of
             Inl e \<Rightarrow> []
           | Inr contract_data \<Rightarrow>
               (case keys contract_data of Inl e \<Rightarrow> [] | Inr names \<Rightarrow> names)))"

text \<open>
  The compiler collaborator is a parameter: given the sanitized source (the file name,
  the output selection, the remapping, the version and the allowed path are constants)
  it raises or returns its output. Whatever the \<^verbatim>\<open>try\<close> block raises becomes an
  \<^verbatim>\<open>HTTPException\<close> with status 500 and \<^verbatim>\<open>str(e)\<close> as detail.
\<close>

definition compile_contract ::
  "(pystr \<Rightarrow> py_error + json) \<Rightarrow> pystr \<Rightarrow> failure + compile_result" where
  "compile_contract solc source =
     (let sanitized = sanitize source
      in case bind_result (solc sanitized) extract_first_contract of
           Inl e \<Rightarrow> Inl (HTTPException 500 (exn_str e))
         | Inr r \<Rightarrow> Inr r)"

section \<open>Properties of the sanitizer\<close>

lemma spdx_pattern_eq: "spdx_pattern = slash # slash # lit '' SPDX-License-Identifier: MIT''"
  by (simp add: spdx_pattern_def lit_def slash_def)

lemma newline_notin_spdx: "newline \<notin> set spdx_pattern"
  by (simp add: spdx_pattern_def lit_def newline_def)

lemma re_sub_literal_Nil: "re_sub_literal pat [] = []"
  by simp

lemma re_sub_literal_empty: "re_sub_literal [] s = s"
  by simp

lemma re_sub_literal_hit:
  "pat \<noteq> [] \<Longrightarrow> re_sub_literal pat (pat @ r) = re_sub_literal pat r"
  by (subst re_sub_literal.simps) simp

lemma re_sub_literal_miss:
  "\<not> prefix pat (c # cs) \<Longrightarrow> re_sub_literal pat (c # cs) = c # re_sub_literal pat cs"
  by (subst re_sub_literal.simps) auto

declare re_sub_literal.simps [simp del]

lemma count_re_sub_literal:
  "x \<notin> set pat \<Longrightarrow> count_list (re_sub_literal pat s) x = count_list s x"
proof (induction s rule: length_induct)
  case (1 s)
  show ?case
  proof (cases "pat \<noteq> [] \<and> prefix pat s")
    case True
    then obtain r where s: "s = pat @ r" by (auto simp: prefix_def)
    with True 1 show ?thesis by (simp add: re_sub_literal_hit)
  next
    case False
    show ?thesis
    proof (cases s)
      case Nil then show ?thesis by (simp add: re_sub_literal_Nil)
    next
      case (Cons c cs)
      show ?thesis
      proof (cases "pat = []")
        case True then show ?thesis by (simp add: re_sub_literal_empty)
      next
        case F: False
        with False Cons have "\<not> prefix pat (c # cs)" by simp
        with 1 Cons show ?thesis by (simp add: re_sub_literal_miss)
      qed
    qed
  qed
qed

lemma count_dropWhile_neq: "count_list (dropWhile (\<lambda>c. c \<noteq> x) cs) x = count_list cs x"
  by (induction cs) auto

lemma count_re_sub_line_comment:
  "count_list (re_sub_line_comment s) newline = count_list s newline"
  by (induction s rule: re_sub_line_comment.induct)
     (auto simp: count_dropWhile_neq slash_def newline_def)

text \<open>
  Claim C10. The sanitizer keeps the line structure: its output holds exactly as many
  newline code points as the submitted text, whatever the text.
\<close>

theorem sanitize_keeps_newlines:
  "count_list (sanitize source) newline = count_list source newline"
  by (simp add: sanitize_def count_re_sub_line_comment count_re_sub_literal newline_notin_spdx)

lemma re_sub_line_comment_other:
  "b \<noteq> slash \<Longrightarrow> re_sub_line_comment (b # cs) = b # re_sub_line_comment cs"
  by (cases cs) auto

lemma no_comment_left: "\<not> sublist [slash, slash] (re_sub_line_comment s)"
proof (induction s rule: re_sub_line_comment.induct)
  case 1 then show ?case by simp
next
  case (2 a) then show ?case by (simp add: sublist_Cons_right)
next
  case (3 a b cs)
  show ?case
  proof (cases "a = slash \<and> b = slash")
    case True with 3 show ?thesis by simp
  next
    case False
    with 3 have ih: "\<not> sublist [slash, slash] (re_sub_line_comment (b # cs))" by simp
    have "\<not> prefix [slash, slash] (a # re_sub_line_comment (b # cs))"
    proof (cases "a = slash")
      case True
      with False have "b \<noteq> slash" by simp
      then show ?thesis by (simp add: re_sub_line_comment_other)
    next
      case F: False then show ?thesis by simp
    qed
    with ih have "\<not> sublist [slash, slash] (a # re_sub_line_comment (b # cs))"
      by (simp add: sublist_Cons_right)
    with False show ?thesis by auto
  qed
qed

lemma re_sub_line_comment_fixed:
  "\<not> sublist [slash, slash] t \<Longrightarrow> re_sub_line_comment t = t"
  by (induction t rule: re_sub_line_comment.induct) (auto simp: sublist_Cons_right)

lemma re_sub_literal_fixed: "\<not> sublist pat t \<Longrightarrow> re_sub_literal pat t = t"
proof (induction t)
  case Nil then show ?case by (simp add: re_sub_literal_Nil)
next
  case (Cons c cs)
  then show ?case by (simp add: sublist_Cons_right re_sub_literal_miss)
qed

lemma comment_in_spdx: "sublist [slash, slash] spdx_pattern"
  by (simp add: spdx_pattern_eq sublist_Cons_right)

lemma sanitize_fixed: "\<not> sublist [slash, slash] t \<Longrightarrow> sanitize t = t"
proof -
  assume h: "\<not> sublist [slash, slash] t"
  then have "\<not> sublist spdx_pattern t"
    using comment_in_spdx sublist_order.order_trans by blast
  with h show ?thesis
    by (simp add: sanitize_def re_sub_literal_fixed re_sub_line_comment_fixed)
qed

text \<open>
  Claim C7. The sanitizer is idempotent: sanitizing its own output changes nothing. Its
  output never holds two slashes in a row (\<open>no_comment_left\<close>), and both substitutions
  leave such a text as it is.
\<close>

theorem sanitize_idempotent: "sanitize (sanitize source) = sanitize source"
proof -
  have "\<not> sublist [slash, slash] (sanitize source)"
    unfolding sanitize_def by (rule no_comment_left)
  then show ?thesis by (rule sanitize_fixed)
qed

lemma dropWhile_line_append:
  "newline \<notin> set xs \<Longrightarrow>
   dropWhile (\<lambda>c. c \<noteq> newline) (xs @ ys) = dropWhile (\<lambda>c. c \<noteq> newline) ys"
  by (induction xs) auto

lemma re_sub_literal_rest_of_line:
  "newline \<notin> set pat \<Longrightarrow>
   dropWhile (\<lambda>c. c \<noteq> newline) (re_sub_literal pat s) =
   re_sub_literal pat (dropWhile (\<lambda>c. c \<noteq> newline) s)"
proof (induction s rule: length_induct)
  case (1 s)
  show ?case
  proof (cases "pat = []")
    case True then show ?thesis by (simp add: re_sub_literal_empty)
  next
    case ne: False
    show ?thesis
    proof (cases "prefix pat s")
      case True
      then obtain r where s: "s = pat @ r" by (auto simp: prefix_def)
      with ne have "length r < length s" by simp
      with 1 have "dropWhile (\<lambda>c. c \<noteq> newline) (re_sub_literal pat r) =
         re_sub_literal pat (dropWhile (\<lambda>c. c \<noteq> newline) r)" by blast
      with ne 1(2) show ?thesis
        by (simp add: s re_sub_literal_hit dropWhile_line_append)
    next
      case False
      show ?thesis
      proof (cases s)
        case Nil then show ?thesis by (simp add: re_sub_literal_Nil)
      next
        case (Cons c cs)
        with False have miss: "re_sub_literal pat s = c # re_sub_literal pat cs"
          by (simp add: re_sub_literal_miss)
        from 1 Cons have ih: "dropWhile (\<lambda>c. c \<noteq> newline) (re_sub_literal pat cs) =
           re_sub_literal pat (dropWhile (\<lambda>c. c \<noteq> newline) cs)" by simp
        show ?thesis
        proof (cases "c = newline")
          case True
          with miss Cons show ?thesis by simp
        next
          case F: False
          with miss Cons ih show ?thesis by simp
        qed
      qed
    qed
  qed
qed

lemma spdx_redundant_aux:
  "(\<forall>p r. s = p @ spdx_pattern @ r \<longrightarrow>
      (r = [] \<or> hd r = newline) \<and> (p = [] \<or> last p \<noteq> slash)) \<Longrightarrow>
   re_sub_line_comment (re_sub_literal spdx_pattern s) = re_sub_line_comment s"
proof (induction s rule: length_induct)
  case (1 s)
  note H = "1.prems"
  have suffix: "\<And>u t. s = u @ t \<Longrightarrow>
      \<forall>p r. t = p @ spdx_pattern @ r \<longrightarrow> (r = [] \<or> hd r = newline) \<and> (p = [] \<or> last p \<noteq> slash)"
  proof (intro allI impI)
    fix u t p r
    assume "s = u @ t" and "t = p @ spdx_pattern @ r"
    then have "s = (u @ p) @ spdx_pattern @ r" by simp
    with H have "(r = [] \<or> hd r = newline) \<and> (u @ p = [] \<or> last (u @ p) \<noteq> slash)" by blast
    then show "(r = [] \<or> hd r = newline) \<and> (p = [] \<or> last p \<noteq> slash)" by auto
  qed
  have IH: "\<And>u t. s = u @ t \<Longrightarrow> u \<noteq> [] \<Longrightarrow>
      re_sub_line_comment (re_sub_literal spdx_pattern t) = re_sub_line_comment t"
  proof -
    fix u t assume s: "s = u @ t" and "u \<noteq> []"
    then have "length t < length s" by simp
    with "1.IH" suffix [OF s] show
      "re_sub_line_comment (re_sub_literal spdx_pattern t) = re_sub_line_comment t" by blast
  qed
  have spdx_ne: "spdx_pattern \<noteq> []" by (simp add: spdx_pattern_eq)
  show ?case
  proof (cases "prefix spdx_pattern s")
    case True
    then obtain r where s: "s = spdx_pattern @ r" by (auto simp: prefix_def)
    then have "s = [] @ spdx_pattern @ r" by simp
    with H have eol: "r = [] \<or> hd r = newline" by blast
    then have dw: "dropWhile (\<lambda>c. c \<noteq> newline) r = r" by (cases r) auto
    have "re_sub_line_comment s =
        re_sub_line_comment (dropWhile (\<lambda>c. c \<noteq> newline) (lit '' SPDX-License-Identifier: MIT'' @ r))"
      unfolding s spdx_pattern_eq by simp
    also have "\<dots> = re_sub_line_comment r"
      by (simp add: dropWhile_line_append lit_def newline_def dw [unfolded newline_def])
    finally have a: "re_sub_line_comment s = re_sub_line_comment r" .
    have "re_sub_literal spdx_pattern s = re_sub_literal spdx_pattern r"
      unfolding s using spdx_ne by (rule re_sub_literal_hit)
    with a IH [OF s spdx_ne] show ?thesis by simp
  next
    case np: False
    show ?thesis
    proof (cases s)
      case Nil then show ?thesis by (simp add: re_sub_literal_Nil)
    next
      case (Cons c r)
      with np have m1: "re_sub_literal spdx_pattern s = c # re_sub_literal spdx_pattern r"
        by (simp add: re_sub_literal_miss)
      have ih_r: "re_sub_line_comment (re_sub_literal spdx_pattern r) = re_sub_line_comment r"
        using IH [of "[c]" r] Cons by simp
      show ?thesis
      proof (cases "c = slash")
        case False
        with m1 ih_r Cons show ?thesis by (simp add: re_sub_line_comment_other)
      next
        case c: True
        have np2: "\<not> prefix spdx_pattern r"
        proof
          assume "prefix spdx_pattern r"
          then obtain r' where "r = spdx_pattern @ r'" by (auto simp: prefix_def)
          with Cons c have "s = [slash] @ spdx_pattern @ r'" by simp
          with H have "[slash] = [] \<or> last [slash] \<noteq> slash" by blast
          then show False by simp
        qed
        show ?thesis
        proof (cases r)
          case Nil
          with m1 Cons show ?thesis by (simp add: re_sub_literal_Nil)
        next
          case (Cons b r')
          with np2 have m2: "re_sub_literal spdx_pattern r = b # re_sub_literal spdx_pattern r'"
            by (simp add: re_sub_literal_miss)
          show ?thesis
          proof (cases "b = slash")
            case False
            have "re_sub_line_comment (re_sub_literal spdx_pattern s) =
                c # re_sub_line_comment (re_sub_literal spdx_pattern r)"
              using m1 m2 False by simp
            also have "\<dots> = c # re_sub_line_comment r" using ih_r by simp
            also have "\<dots> = re_sub_line_comment s"
              using \<open>s = c # r\<close> Cons False by simp
            finally show ?thesis .
          next
            case b: True
            let ?rest = "dropWhile (\<lambda>c. c \<noteq> newline) r'"
            have s': "s = (c # b # takeWhile (\<lambda>c. c \<noteq> newline) r') @ ?rest"
              using \<open>s = c # r\<close> Cons by simp
            have ih': "re_sub_line_comment (re_sub_literal spdx_pattern ?rest) = re_sub_line_comment ?rest"
              using IH [OF s'] by simp
            have "re_sub_line_comment (re_sub_literal spdx_pattern s) =
                re_sub_line_comment (dropWhile (\<lambda>c. c \<noteq> newline) (re_sub_literal spdx_pattern r'))"
              using m1 m2 b c by simp
            also have "\<dots> = re_sub_line_comment (re_sub_literal spdx_pattern ?rest)"
              by (simp add: re_sub_literal_rest_of_line newline_notin_spdx)
            also have "\<dots> = re_sub_line_comment ?rest" by (rule ih')
            also have "\<dots> = re_sub_line_comment s"
              using \<open>s = c # r\<close> Cons b c by simp
            finally show ?thesis .
          qed
        qed
      qed
    qed
  qed
qed

lemma standalone_from_sublist:
  assumes "\<forall>c. c \<noteq> newline \<longrightarrow> \<not> sublist (spdx_pattern @ [c]) s"
    and "\<not> sublist (slash # spdx_pattern) s"
  shows "\<forall>p r. s = p @ spdx_pattern @ r \<longrightarrow>
      (r = [] \<or> hd r = newline) \<and> (p = [] \<or> last p \<noteq> slash)"
proof (intro allI impI conjI)
  fix p r
  assume s: "s = p @ spdx_pattern @ r"
  show "r = [] \<or> hd r = newline"
  proof (cases r)
    case (Cons c r')
    with s have "s = p @ (spdx_pattern @ [c]) @ r'" by simp
    then have "sublist (spdx_pattern @ [c]) s" unfolding sublist_def by blast
    with assms(1) Cons show ?thesis by auto
  qed simp
  show "p = [] \<or> last p \<noteq> slash"
  proof (cases p rule: rev_cases)
    case (snoc p' x)
    with s have "s = p' @ (x # spdx_pattern) @ r" by simp
    then have "sublist (x # spdx_pattern) s" unfolding sublist_def by blast
    with assms(2) snoc show ?thesis by auto
  qed simp
qed

text \<open>
  Claim C9. The substitution of the SPDX pattern is to change nothing in the result, for
  every text: the substitution of the comments alone removes a licence line with
  everything else from two slashes to the end of the line. The code does not behave so.
  When the pattern is followed by more text on its line, the first substitution cuts the
  pattern, its two slashes included, out of the comment, and the rest of the comment
  stays; when the pattern follows a slash, one slash stays. Both texts are comments that
  the second substitution alone removes whole.
\<close>

theorem spdx_substitution_not_redundant:
  "re_sub_line_comment (re_sub_literal spdx_pattern (lit ''// SPDX-License-Identifier: MIT-0'')) \<noteq>
     re_sub_line_comment (lit ''// SPDX-License-Identifier: MIT-0'')
   \<and> re_sub_line_comment (re_sub_literal spdx_pattern (lit ''/// SPDX-License-Identifier: MIT'')) \<noteq>
     re_sub_line_comment (lit ''/// SPDX-License-Identifier: MIT'')"
proof -
  have 1: "re_sub_literal spdx_pattern (lit ''// SPDX-License-Identifier: MIT-0'') = lit ''-0''"
    by code_simp
  have 2: "re_sub_literal spdx_pattern (lit ''/// SPDX-License-Identifier: MIT'') = lit ''/''"
    by code_simp
  show ?thesis unfolding 1 2 by (simp add: lit_def slash_def)
qed

text \<open>
  Where every occurrence of the pattern runs to the end of its line and follows no
  slash, the first substitution cuts nothing out of a longer comment, and the two
  results are equal.
\<close>

lemma spdx_substitution_redundant:
  "(\<forall>p r. source = p @ spdx_pattern @ r \<longrightarrow>
      (r = [] \<or> hd r = newline) \<and> (p = [] \<or> last p \<noteq> slash)) \<Longrightarrow>
   re_sub_line_comment (re_sub_literal spdx_pattern source) = re_sub_line_comment source"
  by (rule spdx_redundant_aux)

lemma spdx_substitution_redundant_example:
  "re_sub_line_comment (re_sub_literal spdx_pattern
      (lit ''// SPDX-License-Identifier: MIT\<newline>contract C {} // c\<newline>'')) =
   re_sub_line_comment (lit ''// SPDX-License-Identifier: MIT\<newline>contract C {} // c\<newline>'')"
proof -
  let ?s = "lit ''// SPDX-License-Identifier: MIT\<newline>contract C {} // c\<newline>''"
  have a: "\<forall>c. c \<noteq> newline \<longrightarrow> \<not> sublist (spdx_pattern @ [c]) ?s"
    by (simp add: spdx_pattern_def lit_def newline_def sublist_Cons_right)
  have b: "\<not> sublist (slash # spdx_pattern) ?s"
    by (simp add: spdx_pattern_def lit_def slash_def sublist_Cons_right)
  from standalone_from_sublist [OF a b] show ?thesis
    by (rule spdx_substitution_redundant)
qed

text \<open>
  Claim C6. The sanitizer is to remove every \<^verbatim>\<open>//\<close> comment up to the end of its
  line, SPDX lines among them, and nothing else. On a licence line that goes on after
  \<^verbatim>\<open>MIT\<close> the first substitution deletes the pattern alone, two slashes included, and
  the rest of the comment stays in the source as code.
\<close>

theorem sanitize_leaves_license_text:
  "sanitize (lit ''// SPDX-License-Identifier: MIT OR Apache-2.0\<newline>pragma solidity ^0.8.20;'') =
     lit '' OR Apache-2.0\<newline>pragma solidity ^0.8.20;''"
  by code_simp

section \<open>Properties of the response parser\<close>

lemma fence_not_Nil: "fence \<noteq> []"
  by (simp add: fence_def)

lemma solidity_open_not_Nil: "solidity_open \<noteq> []"
  by (simp add: solidity_open_def fence_def)

lemma find_sub_None_iff: "find_sub sub s = None \<longleftrightarrow> \<not> sublist sub s"
  by (induction s) (auto simp: sublist_Cons_right)

lemma find_sub_Some:
  "find_sub sub s = Some i \<Longrightarrow> s = take i s @ sub @ drop (i + length sub) s"
proof (induction s arbitrary: i)
  case Nil
  then show ?case by (simp split: if_splits)
next
  case (Cons c cs)
  show ?case
  proof (cases "prefix sub (c # cs)")
    case True
    with Cons.prems have "i = 0" by simp
    with True show ?thesis by (auto simp: prefix_def)
  next
    case False
    with Cons.prems obtain j where j: "find_sub sub cs = Some j" "i = Suc j" by auto
    from Cons.IH [OF j(1)] j(2) show ?thesis by simp
  qed
qed

lemma not_prefix_before:
  assumes "\<not> sublist sub ((x # a) @ butlast sub)"
  shows "\<not> prefix sub ((x # a) @ sub @ r)"
proof
  assume p: "prefix sub ((x # a) @ sub @ r)"
  have "sub \<noteq> []" using assms by auto
  then have split: "(x # a) @ sub @ r = ((x # a) @ butlast sub) @ (last sub # r)" by simp
  have "length sub \<le> length ((x # a) @ butlast sub)" by simp
  with p have "prefix sub ((x # a) @ butlast sub)"
    unfolding split by (metis prefix_length_prefix prefixI)
  with assms show False by (meson prefix_imp_sublist)
qed

lemma find_sub_first:
  "sub \<noteq> [] \<Longrightarrow> \<not> sublist sub (a @ butlast sub) \<Longrightarrow> find_sub sub (a @ sub @ r) = Some (length a)"
proof (induction a)
  case Nil
  then show ?case by (cases sub) auto
next
  case (Cons x a)
  from Cons.prems(2) have "\<not> prefix sub ((x # a) @ sub @ r)" by (rule not_prefix_before)
  moreover from Cons.prems(2) have "\<not> sublist sub (a @ butlast sub)"
    by (simp add: sublist_Cons_right)
  ultimately show ?case using Cons by simp
qed

declare split_scan.simps [simp del]

lemma split_scan_not_Nil: "split_scan sep s \<noteq> []"
  by (subst split_scan.simps) (simp split: option.splits)

lemma split_scan_none: "\<not> sublist sep s \<Longrightarrow> split_scan sep s = [s]"
  by (subst split_scan.simps) (simp add: find_sub_None_iff [symmetric])

lemma split_scan_first:
  "sep \<noteq> [] \<Longrightarrow> \<not> sublist sep (a @ butlast sep) \<Longrightarrow>
   split_scan sep (a @ sep @ r) = a # split_scan sep r"
  by (subst split_scan.simps) (simp add: find_sub_first)

lemma list_index_first: "xs \<noteq> [] \<Longrightarrow> list_index xs 0 = Inr (hd xs)"
  by (cases xs) (simp_all add: list_index_def)

lemma list_index_last: "xs \<noteq> [] \<Longrightarrow> list_index xs (- 1) = Inr (last xs)"
  by (cases xs rule: rev_cases) (simp_all add: list_index_def nth_append)

lemma parse_llm_output_eq:
  "parse_llm_output reply =
     Inr (case re_search_solidity reply of Some g \<Rightarrow> strip g | None \<Rightarrow> [],
          strip (hd (split_scan fence reply)), strip (last (split_scan fence reply)))"
  by (simp add: parse_llm_output_def str_split_def fence_not_Nil bind_result_def
      list_index_first list_index_last split_scan_not_Nil)

lemma match_here_Some:
  "match_here s = Some g \<Longrightarrow> \<exists>c. s = solidity_open @ g @ fence @ c"
proof -
  assume m: "match_here s = Some g"
  then have p: "prefix solidity_open s"
    by (simp add: match_here_def split: if_splits)
  then obtain rest where s: "s = solidity_open @ rest" by (auto simp: prefix_def)
  with m obtain i where i: "find_sub fence rest = Some i" "g = take i rest"
    by (auto simp: match_here_def)
  from find_sub_Some [OF i(1)] i(2) s show ?thesis by metis
qed

lemma re_search_solidity_Some:
  "re_search_solidity s = Some g \<Longrightarrow> \<exists>a c. s = a @ solidity_open @ g @ fence @ c"
proof (induction s)
  case Nil
  then show ?case by (auto dest: match_here_Some)
next
  case (Cons x s)
  show ?case
  proof (cases "match_here (x # s)")
    case None
    with Cons obtain a c where "s = a @ solidity_open @ g @ fence @ c" by auto
    then have "x # s = (x # a) @ solidity_open @ g @ fence @ c" by simp
    then show ?thesis by blast
  next
    case (Some h)
    with Cons.prems have "h = g" by simp
    with Some obtain c where "x # s = [] @ solidity_open @ g @ fence @ c"
      by (auto dest: match_here_Some)
    then show ?thesis by blast
  qed
qed

lemma match_here_block:
  "\<not> sublist fence (b @ butlast fence) \<Longrightarrow> match_here (solidity_open @ b @ fence @ c) = Some b"
  by (simp add: match_here_def find_sub_first fence_not_Nil)

lemma re_search_solidity_first:
  "\<not> sublist solidity_open (a @ butlast solidity_open) \<Longrightarrow>
   \<not> sublist fence (b @ butlast fence) \<Longrightarrow>
   re_search_solidity (a @ solidity_open @ b @ fence @ c) = Some b"
proof (induction a)
  case Nil
  then have "match_here (solidity_open @ b @ fence @ c) = Some b" by (simp add: match_here_block)
  then show ?case by (cases "solidity_open @ b @ fence @ c") (simp_all add: solidity_open_not_Nil)
next
  case (Cons x a)
  from Cons.prems(1) have "\<not> prefix solidity_open ((x # a) @ solidity_open @ b @ fence @ c)"
    by (rule not_prefix_before)
  then have "match_here (x # a @ solidity_open @ b @ fence @ c) = None"
    by (simp add: match_here_def)
  moreover from Cons.prems(1) have "\<not> sublist solidity_open (a @ butlast solidity_open)"
    by (simp add: sublist_Cons_right)
  ultimately show ?case using Cons by simp
qed

lemma re_search_solidity_no_fence:
  "\<not> sublist fence s \<Longrightarrow> re_search_solidity s = None"
proof (rule ccontr)
  assume nf: "\<not> sublist fence s" and "re_search_solidity s \<noteq> None"
  then obtain g where "re_search_solidity s = Some g" by auto
  then obtain a c where "s = (a @ solidity_open @ g) @ fence @ c"
    by (auto dest: re_search_solidity_Some)
  then have "sublist fence s" unfolding sublist_def by blast
  with nf show False by simp
qed

lemma butlast_shorter: "sub \<noteq> [] \<Longrightarrow> \<not> sublist sub (butlast sub)"
proof
  assume "sub \<noteq> []" and "sublist sub (butlast sub)"
  then have "length sub \<le> length (butlast sub)" by (meson sublist_length_le)
  with \<open>sub \<noteq> []\<close> show False by (cases sub rule: rev_cases) auto
qed

lemma find_sub_leftmost:
  "find_sub sub s = Some i \<Longrightarrow> sub \<noteq> [] \<Longrightarrow> \<not> sublist sub (take i s @ butlast sub)"
proof (induction s arbitrary: i)
  case Nil
  then show ?case by (simp split: if_splits)
next
  case (Cons x s)
  show ?case
  proof (cases "prefix sub (x # s)")
    case True
    with Cons.prems show ?thesis by (simp add: butlast_shorter)
  next
    case False
    with Cons.prems obtain j where j: "find_sub sub s = Some j" "i = Suc j" by auto
    from Cons.IH [OF j(1) Cons.prems(2)]
    have ih: "\<not> sublist sub (take j s @ butlast sub)" .
    have "s = take j s @ sub @ drop (j + length sub) s" using j(1) by (rule find_sub_Some)
    then have "x # s = (x # take j s @ butlast sub) @ (last sub # drop (j + length sub) s)"
      using Cons.prems(2) by (metis append.assoc append_Cons append_butlast_last_id append_Nil)
    then have "prefix (x # take j s @ butlast sub) (x # s)" by (metis prefixI)
    with False have "\<not> prefix sub (x # take j s @ butlast sub)"
      using prefix_order.trans by blast
    with ih j(2) show ?thesis by (simp add: sublist_Cons_right)
  qed
qed

lemma find_sub_le:
  "find_sub sub (a @ sub @ r) = Some i \<Longrightarrow> i \<le> length a"
proof (induction a arbitrary: i)
  case Nil
  have "prefix sub (sub @ r)" by simp
  with Nil show ?case by (cases "sub @ r") (auto split: if_splits)
next
  case (Cons x a)
  then show ?case by (auto split: if_splits)
qed

lemma first_block_exists:
  assumes "reply = a' @ solidity_open @ b' @ fence @ c'"
  shows "\<exists>a b c. reply = a @ solidity_open @ b @ fence @ c \<and>
           \<not> sublist solidity_open (a @ butlast solidity_open) \<and>
           \<not> sublist fence (b @ butlast fence)"
proof -
  have "sublist solidity_open reply" unfolding assms sublist_def by blast
  then obtain i where i: "find_sub solidity_open reply = Some i"
    using find_sub_None_iff by (cases "find_sub solidity_open reply") auto
  define a where "a = take i reply"
  define rest where "rest = drop (i + length solidity_open) reply"
  have reply: "reply = a @ solidity_open @ rest"
    unfolding a_def rest_def using i by (rule find_sub_Some)
  have a: "\<not> sublist solidity_open (a @ butlast solidity_open)"
    unfolding a_def using i solidity_open_not_Nil by (rule find_sub_leftmost)
  have "i \<le> length a'" using i unfolding assms by (rule find_sub_le)
  then have "rest = drop (i + length solidity_open) (a' @ solidity_open) @ b' @ fence @ c'"
    unfolding rest_def assms by simp
  then have "sublist fence rest" unfolding sublist_def by (metis append.assoc)
  then obtain j where j: "find_sub fence rest = Some j"
    using find_sub_None_iff by (cases "find_sub fence rest") auto
  define b where "b = take j rest"
  define c where "c = drop (j + length fence) rest"
  have rest: "rest = b @ fence @ c"
    unfolding b_def c_def using j by (rule find_sub_Some)
  have b: "\<not> sublist fence (b @ butlast fence)"
    unfolding b_def using j fence_not_Nil by (rule find_sub_leftmost)
  from reply rest a b show ?thesis by blast
qed

lemma parse_first_block:
  "\<not> sublist solidity_open (a @ butlast solidity_open) \<Longrightarrow>
   \<not> sublist fence (b @ butlast fence) \<Longrightarrow>
   \<exists>f l. parse_llm_output (a @ solidity_open @ b @ fence @ c) = Inr (strip b, f, l)"
  by (simp add: parse_llm_output_eq re_search_solidity_first)

lemma no_backtick_no_block:
  "backtick \<notin> set s \<Longrightarrow> s \<noteq> a @ solidity_open @ b @ fence @ c"
  by (auto simp: fence_def)

lemma no_backtick_no_fence: "backtick \<notin> set s \<Longrightarrow> \<not> sublist fence s"
  by (auto simp: fence_def sublist_def)


text \<open>
  Claim C3. A reply holds a block when it is \<open>a @ solidity_open @ b @ fence @ c\<close>. The
  first block is the one whose opening tag is the leftmost in the reply (no tag starts
  before the end of \<open>a\<close>) and whose closing fence is the first fence after the tag (none
  starts before the end of \<open>b\<close>). Every reply with a block has a first block; for the
  first block the code field is \<open>b\<close> trimmed; and for a reply with no block the code
  field is empty.
\<close>

theorem parse_code_block:
  "((\<exists>a b c. reply = a @ solidity_open @ b @ fence @ c) \<longrightarrow>
      (\<exists>a b c. reply = a @ solidity_open @ b @ fence @ c \<and>
         \<not> sublist solidity_open (a @ butlast solidity_open) \<and>
         \<not> sublist fence (b @ butlast fence)))
   \<and> (reply = a @ solidity_open @ b @ fence @ c \<and>
        \<not> sublist solidity_open (a @ butlast solidity_open) \<and>
        \<not> sublist fence (b @ butlast fence) \<longrightarrow>
      (\<exists>f l. parse_llm_output reply = Inr (strip b, f, l)))
   \<and> ((\<forall>a b c. reply \<noteq> a @ solidity_open @ b @ fence @ c) \<longrightarrow>
      (\<exists>f l. parse_llm_output reply = Inr ([], f, l)))"
proof (intro conjI impI)
  assume "\<exists>a b c. reply = a @ solidity_open @ b @ fence @ c"
  then show "\<exists>a b c. reply = a @ solidity_open @ b @ fence @ c \<and>
         \<not> sublist solidity_open (a @ butlast solidity_open) \<and>
         \<not> sublist fence (b @ butlast fence)"
    using first_block_exists by blast
next
  assume "reply = a @ solidity_open @ b @ fence @ c \<and>
        \<not> sublist solidity_open (a @ butlast solidity_open) \<and>
        \<not> sublist fence (b @ butlast fence)"
  then show "\<exists>f l. parse_llm_output reply = Inr (strip b, f, l)"
    using parse_first_block by blast
next
  assume h: "\<forall>a b c. reply \<noteq> a @ solidity_open @ b @ fence @ c"
  have "re_search_solidity reply = None"
  proof (cases "re_search_solidity reply")
    case (Some g)
    from re_search_solidity_Some [OF Some] h show ?thesis by blast
  qed simp
  then show "\<exists>f l. parse_llm_output reply = Inr ([], f, l)"
    by (simp add: parse_llm_output_eq)
qed

theorem parse_code_block_witness:
  "\<not> sublist solidity_open (lit ''Here: '' @ butlast solidity_open) \<and>
   \<not> sublist fence (lit ''\<newline>contract C {}\<newline>'' @ butlast fence) \<and>
   (\<exists>f l. parse_llm_output
       (lit ''Here: '' @ solidity_open @ lit ''\<newline>contract C {}\<newline>'' @ fence @ lit '' Done.'') =
     Inr (strip (lit ''\<newline>contract C {}\<newline>''), f, l)) \<and>
   strip (lit ''\<newline>contract C {}\<newline>'') = lit ''contract C {}'' \<and>
   (\<forall>a b c. lit ''no code'' \<noteq> a @ solidity_open @ b @ fence @ c) \<and>
   (\<exists>f l. parse_llm_output (lit ''no code'') = Inr ([], f, l))"
proof -
  have h1: "\<not> sublist solidity_open (lit ''Here: '' @ butlast solidity_open)"
    by (simp add: solidity_open_def fence_def backtick_def lit_def sublist_Cons_right)
  have h2: "\<not> sublist fence (lit ''\<newline>contract C {}\<newline>'' @ butlast fence)"
    by (simp add: fence_def backtick_def lit_def sublist_Cons_right)
  have h3: "\<forall>a b c. lit ''no code'' \<noteq> a @ solidity_open @ b @ fence @ c"
    by (intro allI no_backtick_no_block) (simp add: lit_def backtick_def)
  have s: "strip (lit ''\<newline>contract C {}\<newline>'') = lit ''contract C {}''"
    by (simp add: strip_def lit_def py_isspace_def)
  from h1 h2 h3 s
    parse_code_block [of "lit ''Here: '' @ solidity_open @ lit ''\<newline>contract C {}\<newline>'' @ fence @ lit '' Done.''"
      "lit ''Here: ''" "lit ''\<newline>contract C {}\<newline>''" "lit '' Done.''"]
    parse_code_block [of "lit ''no code''"]
  show ?thesis by blast
qed

text \<open>
  Claim C4. For a reply that holds no fence at all, both explanations are the whole
  reply, trimmed, and the code field is empty.
\<close>

theorem parse_no_fence:
  "\<not> sublist fence reply \<Longrightarrow> parse_llm_output reply = Inr ([], strip reply, strip reply)"
  by (simp add: parse_llm_output_eq re_search_solidity_no_fence split_scan_none)

theorem parse_no_fence_witness:
  "\<not> sublist fence (lit '' I cannot help. '') \<and>
   parse_llm_output (lit '' I cannot help. '') = Inr ([], lit ''I cannot help.'', lit ''I cannot help.'')"
proof -
  have h: "\<not> sublist fence (lit '' I cannot help. '')"
    by (rule no_backtick_no_fence) (simp add: lit_def backtick_def)
  have s: "strip (lit '' I cannot help. '') = lit ''I cannot help.''"
    by (simp add: strip_def lit_def py_isspace_def)
  from h s parse_no_fence [OF h] show ?thesis by simp
qed

text \<open>
  Claim C5. A reply with exactly two fence markers around one block is
  \<open>a @ fence @ b @ fence @ c\<close> where the scan from the left meets the first marker at the
  end of \<open>a\<close>, the second at the end of \<open>b\<close>, and none in \<open>c\<close>. The first
  explanation is \<open>a\<close> trimmed, the text before the opening fence, and the last one is
  \<open>c\<close> trimmed, the text after the closing fence.
\<close>

theorem parse_two_fences:
  "\<not> sublist fence (a @ butlast fence) \<Longrightarrow> \<not> sublist fence (b @ butlast fence) \<Longrightarrow>
   \<not> sublist fence c \<Longrightarrow>
   \<exists>code. parse_llm_output (a @ fence @ b @ fence @ c) = Inr (code, strip a, strip c)"
  by (simp add: parse_llm_output_eq split_scan_first split_scan_none fence_not_Nil)

theorem parse_two_fences_witness:
  "\<not> sublist fence (lit ''Intro '' @ butlast fence) \<and>
   \<not> sublist fence (lit ''code'' @ butlast fence) \<and>
   \<not> sublist fence (lit '' Outro'') \<and>
   (\<exists>code. parse_llm_output (lit ''Intro '' @ fence @ lit ''code'' @ fence @ lit '' Outro'') =
      Inr (code, lit ''Intro'', lit ''Outro''))"
proof -
  have h1: "\<not> sublist fence (lit ''Intro '' @ butlast fence)"
    by (simp add: fence_def backtick_def lit_def sublist_Cons_right)
  have h2: "\<not> sublist fence (lit ''code'' @ butlast fence)"
    by (simp add: fence_def backtick_def lit_def sublist_Cons_right)
  have h3: "\<not> sublist fence (lit '' Outro'')"
    by (rule no_backtick_no_fence) (simp add: lit_def backtick_def)
  have s: "strip (lit ''Intro '') = lit ''Intro''" "strip (lit '' Outro'') = lit ''Outro''"
    by (simp_all add: strip_def lit_def py_isspace_def)
  from h1 h2 h3 s parse_two_fences [OF h1 h2 h3] show ?thesis by simp
qed

section \<open>Properties of the generation pipeline\<close>











section \<open>Properties of the compilation pipeline\<close>

lemma extract_without_contract:
  "contract_names out = [] \<Longrightarrow> \<exists>e. extract_first_contract out = Inl e"
  by (auto simp: contract_names_def extract_first_contract_def bind_result_def list_index_def
      split: sum.splits)

lemma compile_contract_eq:
  "compile_contract solc source =
     (case solc (sanitize source) of
        Inl e \<Rightarrow> Inl (HTTPException 500 (exn_str e))
      | Inr out \<Rightarrow>
          (case extract_first_contract out of
             Inl e \<Rightarrow> Inl (HTTPException 500 (exn_str e))
           | Inr r \<Rightarrow> Inr r))"
  by (simp add: compile_contract_def bind_result_def split: sum.splits)

text \<open>
  Claim C2. When the compiler raises on the sanitized source, the endpoint fails with an
  \<^verbatim>\<open>HTTPException\<close> of status 500 whose detail is the text of that exception, as it
  is. When the compiler returns an output that lists no contract for the file, the
  extraction raises and the endpoint fails in the same way, with the text of that
  exception. A result is returned only when the whole extraction succeeded, so it always
  holds both fields, and every failure is an \<^verbatim>\<open>HTTPException\<close> of status 500.
\<close>

theorem compile_contract_failure:
  "(solc (sanitize source) = Inl e \<longrightarrow>
      compile_contract solc source = Inl (HTTPException 500 (exn_str e)))
   \<and> (solc (sanitize source) = Inr out \<and> contract_names out = [] \<longrightarrow>
      (\<exists>e'. extract_first_contract out = Inl e' \<and>
         compile_contract solc source = Inl (HTTPException 500 (exn_str e'))))
   \<and> (\<forall>r. compile_contract solc source = Inr r \<longrightarrow>
        (\<exists>out'. solc (sanitize source) = Inr out' \<and> extract_first_contract out' = Inr r))
   \<and> (\<forall>f. compile_contract solc source = Inl f \<longrightarrow> (\<exists>detail. f = HTTPException 500 detail))"
proof (intro conjI impI allI)
  assume "solc (sanitize source) = Inl e"
  then show "compile_contract solc source = Inl (HTTPException 500 (exn_str e))"
    by (simp add: compile_contract_eq)
next
  assume h: "solc (sanitize source) = Inr out \<and> contract_names out = []"
  then obtain e' where "extract_first_contract out = Inl e'"
    using extract_without_contract by blast
  with h show "\<exists>e'. extract_first_contract out = Inl e' \<and>
         compile_contract solc source = Inl (HTTPException 500 (exn_str e'))"
    by (simp add: compile_contract_eq)
next
  fix r assume "compile_contract solc source = Inr r"
  then show "\<exists>out'. solc (sanitize source) = Inr out' \<and> extract_first_contract out' = Inr r"
    by (simp add: compile_contract_eq split: sum.splits)
next
  fix f assume "compile_contract solc source = Inl f"
  then show "\<exists>detail. f = HTTPException 500 detail"
    by (auto simp: compile_contract_eq split: sum.splits)
qed

theorem compile_contract_failure_witness:
  "compile_contract (\<lambda>s. Inl (CollaboratorError (lit ''ParserError: Expected identifier'')))
      (lit ''contract {'') =
     Inl (HTTPException 500 (lit ''ParserError: Expected identifier''))
   \<and> contract_names (JObj [(lit ''contracts'', JObj [(lit ''Contract.sol'', JObj [])])]) = []
   \<and> compile_contract (\<lambda>s. Inr (JObj [(lit ''contracts'', JObj [(lit ''Contract.sol'', JObj [])])]))
      (lit ''pragma solidity ^0.8.20;'') =
     Inl (HTTPException 500 (lit ''list index out of range''))
   \<and> compile_contract
      (\<lambda>s. Inr (JObj [(lit ''contracts'', JObj [(lit ''Contract.sol'', JObj [(lit ''C'',
         JObj [(lit ''abi'', JArr []),
               (lit ''evm'', JObj [(lit ''bytecode'',
                  JObj [(lit ''object'', JStr (lit ''6080''))])])])])])]))
      (lit ''contract C {}'') =
     Inr \<lparr>abi = JArr [], bytecode = JStr (lit ''6080'')\<rparr>
   \<and> extract_first_contract
      (JObj [(lit ''contracts'', JObj [(lit ''Contract.sol'', JObj [(lit ''C'',
         JObj [(lit ''abi'', JArr []),
               (lit ''evm'', JObj [(lit ''bytecode'',
                  JObj [(lit ''object'', JStr (lit ''6080''))])])])])])]) =
     Inr \<lparr>abi = JArr [], bytecode = JStr (lit ''6080'')\<rparr>"
proof -
  let ?fails = "\<lambda>s :: pystr. Inl (CollaboratorError (lit ''ParserError: Expected identifier'')) :: py_error + json"
  let ?none = "JObj [(lit ''contracts'', JObj [(lit ''Contract.sol'', JObj [])])]"
  let ?one = "JObj [(lit ''contracts'', JObj [(lit ''Contract.sol'', JObj [(lit ''C'',
         JObj [(lit ''abi'', JArr []),
               (lit ''evm'', JObj [(lit ''bytecode'',
                  JObj [(lit ''object'', JStr (lit ''6080''))])])])])])]"
  have names: "contract_names ?none = []"
    by (simp add: contract_names_def lit_def)
  have none: "extract_first_contract ?none = Inl (IndexError (lit ''list index out of range''))"
    by (simp add: extract_first_contract_def bind_result_def list_index_def lit_def)
  have one: "compile_contract (\<lambda>s. Inr ?one) (lit ''contract C {}'') =
      Inr \<lparr>abi = JArr [], bytecode = JStr (lit ''6080'')\<rparr>"
    by (simp add: compile_contract_eq extract_first_contract_def bind_result_def list_index_def
        lit_def)
  from compile_contract_failure
    [of ?fails "lit ''contract {''" "CollaboratorError (lit ''ParserError: Expected identifier'')"]
  have a: "compile_contract ?fails (lit ''contract {'') =
      Inl (HTTPException 500 (lit ''ParserError: Expected identifier''))"
    by simp
  from compile_contract_failure
    [of "\<lambda>s. Inr ?none" "lit ''pragma solidity ^0.8.20;''" _ ?none] names none
  have b: "compile_contract (\<lambda>s. Inr ?none) (lit ''pragma solidity ^0.8.20;'') =
      Inl (HTTPException 500 (lit ''list index out of range''))"
    by simp
  from compile_contract_failure
    [of "\<lambda>s. Inr ?one" "lit ''contract C {}''" "IndexError []" ?one] one
  have c: "extract_first_contract ?one = Inr \<lparr>abi = JArr [], bytecode = JStr (lit ''6080'')\<rparr>"
    by auto
  from a names b one c show ?thesis by simp
qed

end
